theory Spec2Isabelle
  imports Complex_Main "HOL-Library.Sublist"
begin

section \<open>Python strings\<close>

text \<open>
  A Python \<open>str\<close> is modelled as a \<open>string\<close> (a list of characters). The model covers
  ASCII text: \<open>lower\<close> maps \<open>A\<close>..\<open>Z\<close> to \<open>a\<close>..\<open>z\<close> and leaves every other character
  alone, and whitespace is what \<open>str.isspace\<close> accepts below code point 128. The few
  non-ASCII characters of the program's message literals are written as their UTF-8 bytes.
\<close>

definition lower_char :: "char \<Rightarrow> char" where
  "lower_char c =
     (let n = (of_char c :: nat) in if 65 \<le> n \<and> n \<le> 90 then char_of (n + 32) else c)"

definition lower :: "string \<Rightarrow> string" where
  "lower s = map lower_char s"

definition is_space :: "char \<Rightarrow> bool" where
  "is_space c =
     (let n = (of_char c :: nat) in (9 \<le> n \<and> n \<le> 13) \<or> (28 \<le> n \<and> n \<le> 32))"

text \<open>\<open>s.strip()\<close>: leading and trailing whitespace removed.\<close>

definition strip :: "string \<Rightarrow> string" where
  "strip s = rev (dropWhile is_space (rev (dropWhile is_space s)))"

text \<open>
  \<open>s.split()\<close> with no argument: the maximal runs of non-whitespace characters, in order;
  \<open>cur\<close> is the token being read.
\<close>

fun split_acc :: "string \<Rightarrow> string \<Rightarrow> string list" where
  "split_acc cur [] = (if cur = [] then [] else [cur])"
| "split_acc cur (c # cs) =
     (if is_space c then (if cur = [] then split_acc [] cs else cur # split_acc [] cs)
      else split_acc (cur @ [c]) cs)"

definition split :: "string \<Rightarrow> string list" where
  "split s = split_acc [] s"

text \<open>\<open>w in text\<close> on strings: \<open>w\<close> occurs in \<open>text\<close> as a contiguous substring.\<close>

fun str_in :: "string \<Rightarrow> string \<Rightarrow> bool" where
  "str_in w [] = (w = [])"
| "str_in w (c # cs) = (prefix w (c # cs) \<or> str_in w cs)"

section \<open>Intent classification\<close>

definition INTENT_MAP :: "(string \<times> string list) list" where
  "INTENT_MAP =
    [(''incident'', [''incident'', ''outage'', ''P1'', ''P2'', ''sev1'', ''sev2'', ''alert'',
        ''page'', ''fire'', ''escalat'', ''on-call'', ''oncall'', ''respond'', ''triage'']),
     (''monitoring'', [''monitor'', ''observ'', ''metric'', ''dashboard'', ''grafana'',
        ''dynatrace'', ''prometheus'', ''alert'', ''SLO'', ''SLI'', ''SLA'', ''error budget'',
        ''APM'', ''RUM'', ''synthetic'', ''trace'', ''log'']),
     (''deployment'', [''deploy'', ''pipeline'', ''CI/CD'', ''harness'', ''canary'',
        ''rollback'', ''release'', ''build'', ''artifact'', ''helm'', ''docker'']),
     (''infrastructure'', [''kubernetes'', ''k8s'', ''terraform'', ''pod'', ''container'',
        ''node'', ''cluster'', ''AWS'', ''cloud'', ''IaC'', ''infra'', ''scaling'',
        ''load balanc'']),
     (''reliability'', [''chaos'', ''fault'', ''resilience'', ''DR'', ''disaster'',
        ''recovery'', ''failover'', ''RTO'', ''RPO'', ''redundan'', ''availability'', ''SRE'',
        ''toil'']),
     (''postmortem'', [''postmortem'', ''post-mortem'', ''RCA'', ''root cause'', ''blameless'',
        ''retrospect'', ''lessons learned'', ''action item''])]"

definition GREETINGS :: "string list" where
  "GREETINGS = [''hello'', ''hi'', ''hey'', ''good morning'', ''good afternoon'', ''howdy'',
     ''sup'', ''what's up'']"

definition HELP_PATTERNS :: "string list" where
  "HELP_PATTERNS = [''help'', ''what can you do'', ''how does this work'', ''commands'',
     ''guide me'']"

text \<open>
  The inner loop of \<open>classify_intent\<close> over one intent's keywords: \<open>True\<close> when it reaches
  \<open>matched.append(intent); break\<close>.
\<close>

fun kw_loop :: "string \<Rightarrow> string list \<Rightarrow> bool" where
  "kw_loop query_lower [] = False"
| "kw_loop query_lower (kw # kws) =
     (if str_in (lower kw) query_lower then True else kw_loop query_lower kws)"

text \<open>The outer loop over the items of the dictionary, in insertion order.\<close>

fun intent_loop :: "string \<Rightarrow> (string \<times> string list) list \<Rightarrow> string list \<Rightarrow> string list" where
  "intent_loop query_lower [] matched = matched"
| "intent_loop query_lower ((intent, keywords) # rest) matched =
     intent_loop query_lower rest
       (if kw_loop query_lower keywords then matched @ [intent] else matched)"

definition classify_intent :: "string \<Rightarrow> string list" where
  "classify_intent query = intent_loop (lower query) INTENT_MAP []"

section \<open>Sequence similarity\<close>

text \<open>
  \<open>fuzzy_score\<close> calls \<open>SequenceMatcher(None, a, b).ratio()\<close> of Python's standard
  \<open>difflib\<close>. With no junk predicate the junk set is empty, so of the class only the
  following takes part. \<open>popular\<close> is the automatic junk heuristic: in a second sequence
  of 200 or more elements, an element that makes up more than 1 percent (plus one) of it
  is left out of the index \<open>b2j\<close>. \<open>b2j b elt\<close> lists the positions of \<open>elt\<close> in \<open>b\<close>
  in increasing order, and is empty for an element that is popular or absent.
\<close>

type_synonym match = "nat \<times> nat \<times> nat"

definition popular :: "string \<Rightarrow> char \<Rightarrow> bool" where
  "popular b elt \<longleftrightarrow> 200 \<le> length b \<and> length b div 100 + 1 < count_list b elt"

definition b2j :: "string \<Rightarrow> char \<Rightarrow> nat list" where
  "b2j b elt = (if popular b elt then [] else filter (\<lambda>j. b ! j = elt) [0..<length b])"

text \<open>\<open>j2len.get(j-1, 0)\<close>; no key is negative.\<close>

definition j2len_get :: "(nat \<rightharpoonup> nat) \<Rightarrow> nat \<Rightarrow> nat" where
  "j2len_get j2len j = (if j = 0 then 0 else case j2len (j - 1) of None \<Rightarrow> 0 | Some k \<Rightarrow> k)"

text \<open>
  \<open>find_longest_match\<close>. \<open>row_loop\<close> is the inner loop over the positions \<open>j\<close> of
  \<open>a[i]\<close> in \<open>b\<close> (\<open>continue\<close> below \<open>blo\<close>, \<open>break\<close> from \<open>bhi\<close> on); \<open>rows_loop\<close> the
  loop over \<open>i\<close>; \<open>extend_back\<close> and \<open>extend_fwd\<close> the two loops that extend the best
  match by equal elements on each end. The two further loops of the source extend by junk
  elements only and never run. Indices are natural numbers: \<open>i + 1 - k\<close> is the source's
  \<open>i-k+1\<close>, which is never negative (\<open>row_loop_ok\<close> below).
\<close>

fun row_loop ::
  "(nat \<rightharpoonup> nat) \<Rightarrow> nat \<Rightarrow> nat \<Rightarrow> nat \<Rightarrow> nat list \<Rightarrow> (nat \<rightharpoonup> nat) \<times> match \<Rightarrow> (nat \<rightharpoonup> nat) \<times> match"
where
  "row_loop j2len i blo bhi [] st = st"
| "row_loop j2len i blo bhi (j # js) (newj2len, (besti, bestj, bestsize)) =
     (if j < blo then row_loop j2len i blo bhi js (newj2len, (besti, bestj, bestsize))
      else if bhi \<le> j then (newj2len, (besti, bestj, bestsize))
      else let k = j2len_get j2len j + 1 in
        row_loop j2len i blo bhi js
          (newj2len(j \<mapsto> k),
           if bestsize < k then (i + 1 - k, j + 1 - k, k) else (besti, bestj, bestsize)))"

fun rows_loop ::
  "string \<Rightarrow> string \<Rightarrow> nat \<Rightarrow> nat \<Rightarrow> nat list \<Rightarrow> (nat \<rightharpoonup> nat) \<times> match \<Rightarrow> match"
where
  "rows_loop a b blo bhi [] (j2len, best) = best"
| "rows_loop a b blo bhi (i # is) (j2len, best) =
     rows_loop a b blo bhi is (row_loop j2len i blo bhi (b2j b (a ! i)) (Map.empty, best))"

function extend_back :: "string \<Rightarrow> string \<Rightarrow> nat \<Rightarrow> nat \<Rightarrow> match \<Rightarrow> match" where
  "extend_back a b alo blo (besti, bestj, bestsize) =
     (if alo < besti \<and> blo < bestj \<and> a ! (besti - 1) = b ! (bestj - 1)
      then extend_back a b alo blo (besti - 1, bestj - 1, bestsize + 1)
      else (besti, bestj, bestsize))"
  by pat_completeness auto
termination
  by (relation "measure (\<lambda>(a, b, alo, blo, besti, bestj, bestsize). besti)") auto

declare extend_back.simps [simp del]

function extend_fwd :: "string \<Rightarrow> string \<Rightarrow> nat \<Rightarrow> nat \<Rightarrow> match \<Rightarrow> match" where
  "extend_fwd a b ahi bhi (besti, bestj, bestsize) =
     (if besti + bestsize < ahi \<and> bestj + bestsize < bhi \<and>
         a ! (besti + bestsize) = b ! (bestj + bestsize)
      then extend_fwd a b ahi bhi (besti, bestj, bestsize + 1)
      else (besti, bestj, bestsize))"
  by pat_completeness auto
termination
  by (relation "measure (\<lambda>(a, b, ahi, bhi, besti, bestj, bestsize). ahi - (besti + bestsize))") auto

declare extend_fwd.simps [simp del]

definition find_longest_match :: "string \<Rightarrow> string \<Rightarrow> nat \<Rightarrow> nat \<Rightarrow> nat \<Rightarrow> nat \<Rightarrow> match" where
  "find_longest_match a b alo ahi blo bhi =
     extend_fwd a b ahi bhi
       (extend_back a b alo blo
          (rows_loop a b blo bhi [alo..<ahi] (Map.empty, (alo, blo, 0))))"


subsection \<open>Index bounds\<close>

definition best_ok :: "nat \<Rightarrow> nat \<Rightarrow> nat \<Rightarrow> nat \<Rightarrow> match \<Rightarrow> bool" where
  "best_ok alo ahi blo bhi best =
     (case best of (bi, bj, bs) \<Rightarrow>
        alo \<le> bi \<and> blo \<le> bj \<and>
        (if bs = 0 then bi = alo \<and> bj = blo else bi + bs \<le> ahi \<and> bj + bs \<le> bhi))"

definition j2len_ok :: "nat \<Rightarrow> nat \<Rightarrow> nat \<Rightarrow> (nat \<rightharpoonup> nat) \<Rightarrow> bool" where
  "j2len_ok alo blo i m = (\<forall>j k. m j = Some k \<longrightarrow> k \<le> i - alo \<and> blo \<le> j \<and> k \<le> j + 1 - blo)"

lemma j2len_get_le:
  assumes "j2len_ok alo blo i m" "blo \<le> j"
  shows "j2len_get m j \<le> i - alo \<and> j2len_get m j \<le> j - blo"
proof (cases "j = 0 \<or> m (j - 1) = None")
  case True
  then show ?thesis by (auto simp: j2len_get_def)
next
  case False
  then obtain k where k: "m (j - 1) = Some k" and j: "0 < j" by auto
  with assms(1) have "k \<le> i - alo" "blo \<le> j - 1" "k \<le> j - 1 + 1 - blo"
    unfolding j2len_ok_def by blast+
  with k j show ?thesis by (simp add: j2len_get_def)
qed

lemma row_loop_ok:
  assumes "alo \<le> i" "i < ahi" "j2len_ok alo blo i m"
  shows "best_ok alo ahi blo bhi best \<Longrightarrow> j2len_ok alo blo (Suc i) new \<Longrightarrow>
         best_ok alo ahi blo bhi (snd (row_loop m i blo bhi js (new, best))) \<and>
         j2len_ok alo blo (Suc i) (fst (row_loop m i blo bhi js (new, best)))"
proof (induction js arbitrary: new best)
  case Nil
  then show ?case by simp
next
  case (Cons j js)
  obtain bi bj bs where best: "best = (bi, bj, bs)" by (cases best)
  show ?case
  proof (cases "j < blo")
    case True
    then show ?thesis using Cons by (simp add: best)
  next
    case lo: False
    show ?thesis
    proof (cases "bhi \<le> j")
      case True
      then show ?thesis using lo Cons.prems by (simp add: best)
    next
      case hi: False
      define k where "k = j2len_get m j + 1"
      have kb: "k \<le> Suc i - alo" "k \<le> j + 1 - blo" "0 < k"
        using j2len_get_le [OF assms(3), of j] lo assms(1) by (auto simp: k_def)
      have new': "j2len_ok alo blo (Suc i) (new(j \<mapsto> k))"
        using Cons.prems(2) kb lo by (auto simp: j2len_ok_def)
      have best': "best_ok alo ahi blo bhi
          (if bs < k then (i + 1 - k, j + 1 - k, k) else (bi, bj, bs))"
        using Cons.prems(1) kb lo hi assms(1,2) by (auto simp: best_ok_def best)
      have step: "row_loop m i blo bhi (j # js) (new, best) =
          row_loop m i blo bhi js
            (new(j \<mapsto> k), if bs < k then (i + 1 - k, j + 1 - k, k) else (bi, bj, bs))"
        using lo hi by (simp add: best k_def Let_def)
      show ?thesis
        unfolding step by (rule Cons.IH [OF best' new'])
    qed
  qed
qed

lemma rows_loop_ok:
  "alo \<le> i0 \<Longrightarrow> j2len_ok alo blo i0 m \<Longrightarrow> best_ok alo ahi blo bhi best \<Longrightarrow>
   best_ok alo ahi blo bhi (rows_loop a b blo bhi [i0..<ahi] (m, best))"
proof (induction "ahi - i0" arbitrary: i0 m best)
  case 0
  then show ?case by simp
next
  case (Suc n)
  then have lt: "i0 < ahi" by simp
  let ?r = "row_loop m i0 blo bhi (b2j b (a ! i0)) (Map.empty, best)"
  have ok: "best_ok alo ahi blo bhi (snd ?r) \<and> j2len_ok alo blo (Suc i0) (fst ?r)"
    by (rule row_loop_ok [OF Suc.prems(1) lt Suc.prems(2) Suc.prems(3)])
      (simp add: j2len_ok_def)
  have "rows_loop a b blo bhi [i0..<ahi] (m, best) =
        rows_loop a b blo bhi [Suc i0..<ahi] (fst ?r, snd ?r)"
    using lt by (simp add: upt_conv_Cons)
  moreover have "best_ok alo ahi blo bhi (rows_loop a b blo bhi [Suc i0..<ahi] (fst ?r, snd ?r))"
    using Suc.hyps(2) Suc.prems(1) ok by (intro Suc.hyps(1)) auto
  ultimately show ?case by simp
qed

lemma extend_back_ok:
  "best_ok alo ahi blo bhi best \<Longrightarrow> best_ok alo ahi blo bhi (extend_back a b alo blo best)"
proof (induction a b alo blo best rule: extend_back.induct)
  case (1 a b alo blo besti bestj bestsize)
  show ?case
  proof (cases "alo < besti \<and> blo < bestj \<and> a ! (besti - 1) = b ! (bestj - 1)")
    case True
    with "1.prems" have "best_ok alo ahi blo bhi (besti - 1, bestj - 1, bestsize + 1)"
      by (auto simp: best_ok_def split: if_splits)
    with True "1.IH" show ?thesis
      by (simp add: extend_back.simps [of a b alo blo besti bestj bestsize])
  next
    case False
    then have "extend_back a b alo blo (besti, bestj, bestsize) = (besti, bestj, bestsize)"
      by (subst extend_back.simps) auto
    with "1.prems" show ?thesis by simp
  qed
qed

lemma extend_fwd_ok:
  "best_ok alo ahi blo bhi best \<Longrightarrow>
   (case extend_fwd a b ahi bhi best of (i, j, k) \<Rightarrow>
      alo \<le> i \<and> blo \<le> j \<and> (0 < k \<longrightarrow> i + k \<le> ahi \<and> j + k \<le> bhi))"
proof (induction a b ahi bhi best rule: extend_fwd.induct)
  case (1 a b ahi bhi besti bestj bestsize)
  show ?case
  proof (cases "besti + bestsize < ahi \<and> bestj + bestsize < bhi \<and>
         a ! (besti + bestsize) = b ! (bestj + bestsize)")
    case True
    with "1.prems" have "best_ok alo ahi blo bhi (besti, bestj, bestsize + 1)"
      by (auto simp: best_ok_def split: if_splits)
    with True "1.IH" show ?thesis
      by (simp add: extend_fwd.simps [of a b ahi bhi besti bestj bestsize])
  next
    case False
    with "1.prems" show ?thesis
      by (auto simp: best_ok_def extend_fwd.simps [of a b ahi bhi besti bestj bestsize]
          split: if_splits)
  qed
qed

lemma find_longest_match_bounds:
  assumes "find_longest_match a b alo ahi blo bhi = (i, j, k)"
  shows "alo \<le> i \<and> blo \<le> j \<and> (0 < k \<longrightarrow> i + k \<le> ahi \<and> j + k \<le> bhi)"
proof -
  have "best_ok alo ahi blo bhi (alo, blo, 0)"
    by (simp add: best_ok_def)
  then have "best_ok alo ahi blo bhi (rows_loop a b blo bhi [alo..<ahi] (Map.empty, (alo, blo, 0)))"
    by (intro rows_loop_ok) (simp_all add: j2len_ok_def)
  then have "best_ok alo ahi blo bhi
      (extend_back a b alo blo (rows_loop a b blo bhi [alo..<ahi] (Map.empty, (alo, blo, 0))))"
    by (rule extend_back_ok)
  from extend_fwd_ok [OF this, of a b] assms show ?thesis
    by (simp add: find_longest_match_def)
qed

text \<open>
  \<open>get_matching_blocks\<close>: the source keeps the index ranges still to be searched in a
  work list and sorts the blocks found at the end; this is the recursion it stands for,
  which yields the blocks in sorted order. The final merging of adjacent blocks and the
  closing dummy block of size 0 do not change the sum of the sizes, which is all that
  \<open>ratio\<close> reads.
\<close>

function matching_blocks :: "string \<Rightarrow> string \<Rightarrow> nat \<Rightarrow> nat \<Rightarrow> nat \<Rightarrow> nat \<Rightarrow> match list" where
  "matching_blocks a b alo ahi blo bhi =
     (case find_longest_match a b alo ahi blo bhi of (i, j, k) \<Rightarrow>
        if k = 0 then []
        else (if alo < i \<and> blo < j then matching_blocks a b alo i blo j else []) @
             [(i, j, k)] @
             (if i + k < ahi \<and> j + k < bhi then matching_blocks a b (i + k) ahi (j + k) bhi
              else []))"
  by pat_completeness auto
termination
  apply (relation "measure (\<lambda>(a, b, alo, ahi, blo, bhi). ahi - alo)")
    apply simp
  subgoal for a b alo ahi blo bhi x y xa ya
    using find_longest_match_bounds [of a b alo ahi blo bhi x xa ya] by auto
  subgoal for a b alo ahi blo bhi x y xa ya
    using find_longest_match_bounds [of a b alo ahi blo bhi x xa ya] by auto
  done

declare matching_blocks.simps [simp del]

definition calculate_ratio :: "nat \<Rightarrow> nat \<Rightarrow> real" where
  "calculate_ratio matches len = (if len \<noteq> 0 then 2.0 * real matches / real len else 1.0)"

definition ratio :: "string \<Rightarrow> string \<Rightarrow> real" where
  "ratio a b =
     calculate_ratio
       (sum_list (map (\<lambda>(i, j, k). k) (matching_blocks a b 0 (length a) 0 (length b))))
       (length a + length b)"

section \<open>Relevance scoring\<close>

text \<open>
  Python floats are modelled by real numbers: sums, products and comparisons are exact.
\<close>

text \<open>The loop of \<open>fuzzy_score\<close> over the words of the query.\<close>

fun substring_loop :: "string list \<Rightarrow> string \<Rightarrow> real \<Rightarrow> real" where
  "substring_loop [] text_lower substring_score = substring_score"
| "substring_loop (word # words) text_lower substring_score =
     substring_loop words text_lower
       (if str_in word text_lower then substring_score + 0.3 else substring_score)"

definition fuzzy_score :: "string \<Rightarrow> string \<Rightarrow> real" where
  "fuzzy_score query text =
     (let query_lower = lower query;
          text_lower = lower text;
          substring_score = substring_loop (split query_lower) text_lower 0;
          seq_score = ratio query_lower text_lower
      in min 1.0 (substring_score + seq_score))"

section \<open>Articles\<close>

text \<open>
  An article is a Python dictionary, as \<open>dict(row)\<close> builds it from a row of the table
  \<open>kb_articles\<close>: an association list from column names to values. A value is an
  integer (the \<open>id\<close>), a text, or \<open>None\<close> for SQL \<open>NULL\<close>.
\<close>

datatype pyval = PyNone | PyInt int | PyStr string

type_synonym article = "(string \<times> pyval) list"

datatype error = AttributeError | KeyError | OperationalError

text \<open>\<open>d.get(key, default)\<close> and \<open>d[key]\<close>.\<close>

definition dict_get :: "article \<Rightarrow> string \<Rightarrow> pyval \<Rightarrow> pyval" where
  "dict_get d key dflt = (case map_of d key of None \<Rightarrow> dflt | Some v \<Rightarrow> v)"

definition dict_item :: "article \<Rightarrow> string \<Rightarrow> error + pyval" where
  "dict_item d key = (case map_of d key of None \<Rightarrow> Inl KeyError | Some v \<Rightarrow> Inr v)"

text \<open>
  \<open>fuzzy_score\<close> applied to a value read from a dictionary: \<open>text.lower()\<close> raises
  \<open>AttributeError\<close> on \<open>None\<close> and on an integer.
\<close>

definition fuzzy_score_val :: "string \<Rightarrow> pyval \<Rightarrow> error + real" where
  "fuzzy_score_val query v =
     (case v of PyStr text \<Rightarrow> Inr (fuzzy_score query text) | _ \<Rightarrow> Inl AttributeError)"

definition bind :: "error + 'a \<Rightarrow> ('a \<Rightarrow> error + 'b) \<Rightarrow> error + 'b" where
  "bind r f = (case r of Inl e \<Rightarrow> Inl e | Inr x \<Rightarrow> f x)"

text \<open>The body of the loop of \<open>rank_articles\<close>: the total score of one article.\<close>

definition total_score :: "string \<Rightarrow> article \<Rightarrow> error + real" where
  "total_score query article =
     bind (fuzzy_score_val query (dict_get article ''title'' (PyStr []))) (\<lambda>title.
     bind (fuzzy_score_val query (dict_get article ''description'' (PyStr []))) (\<lambda>desc.
     bind (fuzzy_score_val query (dict_get article ''tags'' (PyStr []))) (\<lambda>tag.
     bind (fuzzy_score_val query (dict_get article ''category'' (PyStr []))) (\<lambda>cat.
       Inr (title * 2.0 + desc * 1.5 + tag * 1.8 + cat * 1.2)))))"

fun scored_loop ::
  "string \<Rightarrow> article list \<Rightarrow> (real \<times> article) list \<Rightarrow> error + (real \<times> article) list"
where
  "scored_loop query [] scored = Inr scored"
| "scored_loop query (article # rest) scored =
     bind (total_score query article) (\<lambda>total.
       scored_loop query rest (scored @ [(total, article)]))"

text \<open>
  \<open>scored.sort(key=lambda x: x[0], reverse=True)\<close> is a stable sort by decreasing key:
  \<open>sort_key\<close> is a stable insertion sort, here by the negated score.
\<close>

definition rank_articles :: "string \<Rightarrow> article list \<Rightarrow> error + article list" where
  "rank_articles query articles =
     bind (scored_loop query articles []) (\<lambda>scored.
       Inr (map snd (filter (\<lambda>item. fst item > 0.5) (sort_key (\<lambda>x. - fst x) scored))))"

section \<open>The article store\<close>

text \<open>
  The table \<open>kb_articles\<close> is represented by its rows in the order in which
  \<open>SELECT * ... ORDER BY category, title\<close> lists them; \<open>Unavailable\<close> is a database whose
  connection or query fails, so that every read raises.
\<close>

datatype database = Unavailable | Rows "article list"

definition get_all_kb_articles :: "database \<Rightarrow> error + article list" where
  "get_all_kb_articles db =
     (case db of Unavailable \<Rightarrow> Inl OperationalError | Rows rows \<Rightarrow> Inr rows)"

text \<open>
  SQL \<open>text LIKE pattern\<close> as SQLite evaluates it: \<open>%\<close> matches any run of characters,
  \<open>_\<close> any single character, and letters match without regard to case.
\<close>

fun sql_like :: "string \<Rightarrow> string \<Rightarrow> bool" where
  "sql_like [] t = (t = [])"
| "sql_like (p # ps) [] = (p = CHR ''%'' \<and> sql_like ps [])"
| "sql_like (p # ps) (c # cs) =
     (if p = CHR ''%'' then sql_like ps (c # cs) \<or> sql_like (p # ps) cs
      else (p = CHR ''_'' \<or> lower_char p = lower_char c) \<and> sql_like ps cs)"

text \<open>
  \<open>LOWER(column) LIKE '%term%'\<close> on one row; on \<open>NULL\<close> the comparison is not true.
\<close>

definition column_like :: "string \<Rightarrow> article \<Rightarrow> string \<Rightarrow> bool" where
  "column_like term row column =
     (case map_of row column of
        Some (PyStr text) \<Rightarrow> sql_like ([CHR ''%''] @ term @ [CHR ''%'']) (lower text)
      | _ \<Rightarrow> False)"

definition row_matches :: "string list \<Rightarrow> article \<Rightarrow> bool" where
  "row_matches terms row =
     list_ex (\<lambda>term. column_like term row ''title'' \<or> column_like term row ''description'' \<or>
                     column_like term row ''tags'' \<or> column_like term row ''category'') terms"

definition search_kb_articles :: "database \<Rightarrow> string \<Rightarrow> error + article list" where
  "search_kb_articles db query =
     (case db of
        Unavailable \<Rightarrow> Inl OperationalError
      | Rows rows \<Rightarrow>
          (let terms = split (lower query) in
           if terms = [] then get_all_kb_articles db
           else Inr (filter (row_matches terms) rows)))"

section \<open>The response composer\<close>

record response =
  message :: string
  articles :: "article list"
  suggestions :: "string list"

text \<open>\<open>str(n)\<close> for a length: the decimal digits.\<close>

fun str_nat :: "nat \<Rightarrow> string" where
  "str_nat n =
     (if n < 10 then [char_of (48 + n)] else str_nat (n div 10) @ [char_of (48 + n mod 10)])"

declare str_nat.simps [simp del]

definition is_greeting :: "string \<Rightarrow> bool" where
  "is_greeting query \<longleftrightarrow>
     lower query \<in> set GREETINGS \<or> list_ex (\<lambda>g. str_in g (lower query)) GREETINGS"

definition is_help :: "string \<Rightarrow> bool" where
  "is_help query \<longleftrightarrow> list_ex (\<lambda>h. str_in h (lower query)) HELP_PATTERNS"

definition empty_message :: string where
  "empty_message = ''Please type a question or topic '' @ [CHR 0xE2, CHR 0x80, CHR 0x94] @
     '' I'll find the most relevant SRE resources for you.''"

definition greeting_message :: string where
  "greeting_message = [CHR 0xF0, CHR 0x9F, CHR 0x91, CHR 0x8B] @
     '' Hey there! I'm the SRE Knowledge Base assistant. Ask me about any SRE topic and I'll point you to the right Confluence page or external resource.'' @
     [CHR 0x0A, CHR 0x0A] @ ''**Try asking about:**''"

definition help_message :: string where
  "help_message = [CHR 0xF0, CHR 0x9F, CHR 0x94, CHR 0x8D] @
     '' **I can help you find SRE resources!**'' @ [CHR 0x0A, CHR 0x0A] @
     ''Just describe what you need in plain language. I search across:'' @ [CHR 0x0A] @
     ''- '' @ [CHR 0xF0, CHR 0x9F, CHR 0x93, CHR 0x98] @ '' Internal Confluence pages'' @
     [CHR 0x0A] @
     ''- '' @ [CHR 0xF0, CHR 0x9F, CHR 0x8C, CHR 0x90] @ '' External SRE resources'' @
     [CHR 0x0A] @
     ''- '' @ [CHR 0xF0, CHR 0x9F, CHR 0x8F, CHR 0xB7, CHR 0xEF, CHR 0xB8, CHR 0x8F] @
     '' Tags, categories, and descriptions'' @ [CHR 0x0A, CHR 0x0A] @
     ''**Example queries:**''"

definition found_message :: "nat \<Rightarrow> string \<Rightarrow> string \<Rightarrow> string" where
  "found_message n source_label query =
     [CHR 0xF0, CHR 0x9F, CHR 0x93, CHR 0x9A] @ '' Found **'' @ str_nat n @
     ''** relevant '' @ source_label @ '' for *'' @ [CHR 0x22] @ query @ [CHR 0x22] @ ''*:''"

definition not_found_message :: "string \<Rightarrow> string" where
  "not_found_message query =
     [CHR 0xF0, CHR 0x9F, CHR 0xA4, CHR 0x94] @ '' I couldn't find articles matching *'' @
     [CHR 0x22] @ query @ [CHR 0x22] @
     ''*. Try different keywords or browse the suggestions below.''"

subsection \<open>Suggestions\<close>

definition intent_suggestions :: "(string \<times> string list) list" where
  "intent_suggestions =
    [(''incident'', [''postmortem template'', ''on-call escalation policy'',
        ''PagerDuty operations guide'']),
     (''monitoring'', [''SLO/SLI definitions'', ''Grafana dashboards'', ''Dynatrace RUM setup'']),
     (''deployment'', [''canary deployment strategy'', ''rollback procedures'',
        ''Harness pipeline guide'']),
     (''infrastructure'', [''Kubernetes troubleshooting'', ''Terraform IaC standards'',
        ''AWS reliability pillar'']),
     (''reliability'', [''chaos engineering playbook'', ''disaster recovery plan'',
        ''error budget policy'']),
     (''postmortem'', [''incident response runbook'', ''blameless postmortem guide'',
        ''action item tracking''])]"

definition general_suggestions :: "string list" where
  "general_suggestions = [''incident management'', ''observability tools'',
     ''infrastructure automation'', ''reliability testing'']"

text \<open>The loop of \<open>_generate_suggestions\<close> over the intents.\<close>

fun extend_loop :: "string list \<Rightarrow> string list \<Rightarrow> string list" where
  "extend_loop [] suggs = suggs"
| "extend_loop (intent # intents) suggs =
     extend_loop intents
       (case map_of intent_suggestions intent of
          Some ext \<Rightarrow> suggs @ ext
        | None \<Rightarrow> suggs)"

definition generate_suggestions :: "string \<Rightarrow> string list \<Rightarrow> article list \<Rightarrow> string list" where
  "generate_suggestions query intents results =
     (let suggs = extend_loop intents [];
          suggs = (if suggs = [] then general_suggestions else suggs);
          query_lower = lower query;
          suggs = filter (\<lambda>s. \<not> str_in query_lower (lower s)) suggs
      in take 4 suggs)"

subsection \<open>Merging the two searches\<close>

text \<open>
  The loop over \<open>db_results + ranked\<close>; \<open>article["id"]\<close> raises \<open>KeyError\<close> on a
  dictionary without that key.
\<close>

fun merge_loop :: "article list \<Rightarrow> pyval set \<Rightarrow> article list \<Rightarrow> error + article list" where
  "merge_loop [] seen_ids merged = Inr merged"
| "merge_loop (article # rest) seen_ids merged =
     bind (dict_item article ''id'') (\<lambda>i.
       if i \<notin> seen_ids then merge_loop rest (insert i seen_ids) (merged @ [article])
       else merge_loop rest seen_ids merged)"

definition source_label_of :: "article list \<Rightarrow> string" where
  "source_label_of top_results =
     (let source_types = set (map (\<lambda>a. dict_get a ''source_type'' (PyStr [])) top_results) in
      if PyStr ''confluence'' \<in> source_types \<and> PyStr ''external'' \<in> source_types
        then ''Confluence pages and external resources''
      else if PyStr ''confluence'' \<in> source_types then ''Confluence pages''
      else ''external resources'')"

definition empty_response :: response where
  "empty_response =
     \<lparr>message = empty_message, articles = [],
      suggestions = [''incident response'', ''monitoring setup'', ''chaos engineering'']\<rparr>"

definition greeting_response :: response where
  "greeting_response =
     \<lparr>message = greeting_message, articles = [],
      suggestions = [''How do I respond to a P1 incident?'',
        ''Show me chaos engineering resources'', ''Where's the Dynatrace setup guide?'',
        ''What are our SLO standards?'', ''Kubernetes troubleshooting help'']\<rparr>"

definition help_response :: response where
  "help_response =
     \<lparr>message = help_message, articles = [],
      suggestions = [''incident runbook'', ''Grafana dashboard setup'',
        ''disaster recovery plan'', ''terraform standards'', ''on-call rotation policy'']\<rparr>"

text \<open>The last branch of \<open>chatbot_response\<close>, from \<open>search_kb_articles(query)\<close> on.\<close>

definition general_response :: "database \<Rightarrow> string \<Rightarrow> error + response" where
  "general_response db query =
     bind (search_kb_articles db query) (\<lambda>db_results.
     bind (get_all_kb_articles db) (\<lambda>all_articles.
     bind (rank_articles query all_articles) (\<lambda>ranked.
     bind (merge_loop (db_results @ ranked) {} []) (\<lambda>merged.
       let top_results = take 5 merged;
           intents = classify_intent query;
           msg = (if top_results \<noteq> []
                  then found_message (length top_results) (source_label_of top_results) query
                  else not_found_message query);
           suggs = generate_suggestions query intents top_results
       in Inr \<lparr>message = msg, articles = top_results, suggestions = suggs\<rparr>))))"

definition chatbot_response :: "database \<Rightarrow> string \<Rightarrow> error + response" where
  "chatbot_response db user_input =
     (let query = strip user_input in
      if query = [] then Inr empty_response
      else if is_greeting query then Inr greeting_response
      else if is_help query then Inr help_response
      else general_response db query)"

section \<open>Specification-level definitions\<close>

text \<open>
  What the results below assume of articles. A field is \<open>text_or_missing\<close> when its key
  is absent or holds a text (not \<open>None\<close>, which is SQL \<open>NULL\<close>, and not a number); an
  article is \<open>scorable\<close> when its four scored fields are; a stored article is well
  formed when it is scorable and has an \<open>id\<close>; a store is well formed when its reads
  succeed and its articles are well formed.
\<close>

definition text_or_missing :: "article \<Rightarrow> string \<Rightarrow> bool" where
  "text_or_missing a key =
     (case map_of a key of None \<Rightarrow> True | Some (PyStr t) \<Rightarrow> True | Some _ \<Rightarrow> False)"

definition scorable :: "article \<Rightarrow> bool" where
  "scorable a \<longleftrightarrow>
     text_or_missing a ''title'' \<and> text_or_missing a ''description'' \<and>
     text_or_missing a ''tags'' \<and> text_or_missing a ''category''"

definition article_ok :: "article \<Rightarrow> bool" where
  "article_ok a \<longleftrightarrow> map_of a ''id'' \<noteq> None \<and> scorable a"

definition store_ok :: "database \<Rightarrow> bool" where
  "store_ok db = (case db of Unavailable \<Rightarrow> False | Rows rows \<Rightarrow> list_all article_ok rows)"

text \<open>
  The total score as the specification words it: the weighted sum of the fuzzy scores
  of the four fields, a missing field counting as the empty text.
\<close>

definition text_of :: "article \<Rightarrow> string \<Rightarrow> string" where
  "text_of a key = (case map_of a key of Some (PyStr t) \<Rightarrow> t | _ \<Rightarrow> [])"

definition weighted_score :: "string \<Rightarrow> article \<Rightarrow> real" where
  "weighted_score query a =
     2.0 * fuzzy_score query (text_of a ''title'') +
     1.8 * fuzzy_score query (text_of a ''tags'') +
     1.5 * fuzzy_score query (text_of a ''description'') +
     1.2 * fuzzy_score query (text_of a ''category'')"

text \<open>What \<open>rank_articles\<close> returns when the articles score \<open>w\<close>.\<close>

definition ranked_by :: "(article \<Rightarrow> real) \<Rightarrow> article list \<Rightarrow> article list" where
  "ranked_by w as =
     map snd (filter (\<lambda>item. fst item > 0.5)
       (sort_key (\<lambda>x. - fst x) (map (\<lambda>a. (w a, a)) as)))"

text \<open>
  Deduplication by \<open>id\<close> as the specification words it: the first occurrence of an
  \<open>id\<close> stays, every later article with that \<open>id\<close> goes.
\<close>

definition article_id :: "article \<Rightarrow> pyval option" where
  "article_id a = map_of a ''id''"

fun dedup_by_id :: "article list \<Rightarrow> article list" where
  "dedup_by_id [] = []"
| "dedup_by_id (a # rest) =
     a # dedup_by_id (filter (\<lambda>x. article_id x \<noteq> article_id a) rest)"

text \<open>
  The last branch of \<open>chatbot_response\<close> is taken by a query that is not empty after
  stripping and holds no greeting and no help phrase.
\<close>

definition general_query :: "string \<Rightarrow> bool" where
  "general_query user_input \<longleftrightarrow>
     strip user_input \<noteq> [] \<and> \<not> is_greeting (strip user_input) \<and>
     \<not> is_help (strip user_input)"

text \<open>Some article of the list has the given \<open>source_type\<close>.\<close>

definition has_source_type :: "string \<Rightarrow> article list \<Rightarrow> bool" where
  "has_source_type t as = list_ex (\<lambda>a. dict_get a ''source_type'' (PyStr []) = PyStr t) as"

text \<open>The number of matching elements that \<open>ratio\<close> counts in a pair of ranges.\<close>

definition matches :: "string \<Rightarrow> string \<Rightarrow> nat \<Rightarrow> nat \<Rightarrow> nat \<Rightarrow> nat \<Rightarrow> nat" where
  "matches a b alo ahi blo bhi = sum_list (map (\<lambda>(i, j, k). k) (matching_blocks a b alo ahi blo bhi))"

text \<open>
  \<open>run s j\<close> is the length of the block of elements that are not popular and end just
  before position \<open>j\<close>.
\<close>

fun run :: "string \<Rightarrow> nat \<Rightarrow> nat" where
  "run s 0 = 0"
| "run s (Suc j) = (if popular s (s ! j) then 0 else run s j + 1)"

definition j2len_diag :: "string \<Rightarrow> nat \<Rightarrow> (nat \<rightharpoonup> nat) \<Rightarrow> bool" where
  "j2len_diag s i m \<longleftrightarrow>
     (\<forall>j. j2len_get m j \<le> run s i \<and> j2len_get m j \<le> run s j) \<and> j2len_get m i = run s i"

text \<open>
  A small store for the examples: one external and one internal article, listed by
  category and title.
\<close>

definition kb_example :: "article list" where
  "kb_example =
     [[(''id'', PyInt 2), (''title'', PyStr ''Google SRE Book''),
       (''category'', PyStr ''External Resources''), (''description'', PyStr []),
       (''url'', PyStr ''https://sre.google/sre-book/''),
       (''source_type'', PyStr ''external''), (''tags'', PyStr ''SRE,google'')],
      [(''id'', PyInt 1), (''title'', PyStr ''Runbook''),
       (''category'', PyStr ''Incident Management''), (''description'', PyStr []),
       (''url'', PyStr ''https://confluence.internal/sre/runbook''),
       (''source_type'', PyStr ''confluence''), (''tags'', PyStr [])]]"

section \<open>Facts about strings\<close>

lemma str_in_sublist: "str_in w t \<longleftrightarrow> sublist w t"
  by (induction t) (auto simp: sublist_Cons_right)

lemma kw_loop_iff: "kw_loop ql kws \<longleftrightarrow> (\<exists>kw \<in> set kws. sublist (lower kw) ql)"
  by (induction kws) (auto simp: str_in_sublist)

lemma intent_loop_filter:
  "intent_loop ql m acc = acc @ map fst (filter (\<lambda>p. kw_loop ql (snd p)) m)"
  by (induction ql m acc rule: intent_loop.induct) auto

lemma filter_mem_map_filter:
  "distinct (map f xs) \<Longrightarrow>
   filter (\<lambda>t. t \<in> set (map f (filter P xs))) (map f xs) = map f (filter P xs)"
proof (induction xs)
  case Nil
  then show ?case by simp
next
  case (Cons x xs)
  have *: "filter (\<lambda>t. t = f x \<or> Q t) (map f xs) = filter Q (map f xs)" for Q
  proof (rule filter_cong [OF refl])
    fix t
    assume "t \<in> set (map f xs)"
    with Cons.prems have "t \<noteq> f x" by (auto simp: image_iff)
    then show "(t = f x \<or> Q t) = Q t" by simp
  qed
  show ?case using Cons by (auto simp: * filter_id_conv)
qed



subsection \<open>Splitting at whitespace\<close>

lemma split_acc_space:
  "is_space c \<Longrightarrow> split_acc cur (u @ c # v) = split_acc cur u @ split v"
  by (induction u arbitrary: cur) (auto simp: split_def)

lemma split_acc_word:
  "\<forall>c \<in> set w. \<not> is_space c \<Longrightarrow> cur @ w \<noteq> [] \<Longrightarrow> split_acc cur w = [cur @ w]"
  by (induction w arbitrary: cur) auto

lemma split_Nil: "split [] = []"
  by (simp add: split_def)

lemma split_space: "is_space c \<Longrightarrow> split (u @ c # v) = split u @ split v"
  by (simp add: split_def split_acc_space)

lemma split_word: "w \<noteq> [] \<Longrightarrow> \<forall>c \<in> set w. \<not> is_space c \<Longrightarrow> split w = [w]"
  by (simp add: split_def split_acc_word)



section \<open>Facts about the sequence similarity\<close>

subsection \<open>The ratio lies between 0 and 1\<close>

lemma matches_unfold:
  "matches a b alo ahi blo bhi =
     (case find_longest_match a b alo ahi blo bhi of (i, j, k) \<Rightarrow>
        if k = 0 then 0
        else (if alo < i \<and> blo < j then matches a b alo i blo j else 0) + k +
             (if i + k < ahi \<and> j + k < bhi then matches a b (i + k) ahi (j + k) bhi else 0))"
proof -
  obtain i j k where f: "find_longest_match a b alo ahi blo bhi = (i, j, k)"
    by (cases "find_longest_match a b alo ahi blo bhi") auto
  have "matching_blocks a b alo ahi blo bhi =
      (if k = 0 then []
       else (if alo < i \<and> blo < j then matching_blocks a b alo i blo j else []) @
            [(i, j, k)] @
            (if i + k < ahi \<and> j + k < bhi then matching_blocks a b (i + k) ahi (j + k) bhi
             else []))"
    by (subst matching_blocks.simps) (simp add: f)
  then show ?thesis
    by (auto simp: matches_def f)
qed

lemma matches_le:
  "alo \<le> ahi \<Longrightarrow> blo \<le> bhi \<Longrightarrow>
   matches a b alo ahi blo bhi \<le> ahi - alo \<and> matches a b alo ahi blo bhi \<le> bhi - blo"
proof (induction a b alo ahi blo bhi rule: matching_blocks.induct)
  case (1 a b alo ahi blo bhi)
  obtain i j k where f: "find_longest_match a b alo ahi blo bhi = (i, j, k)"
    by (cases "find_longest_match a b alo ahi blo bhi") auto
  note bnd = find_longest_match_bounds [OF f]
  show ?case
  proof (cases "k = 0")
    case True
    then show ?thesis
      by (subst (1 2) matches_unfold) (simp add: f)
  next
    case False
    define l where "l = (if alo < i \<and> blo < j then matches a b alo i blo j else 0)"
    define r where "r = (if i + k < ahi \<and> j + k < bhi then matches a b (i + k) ahi (j + k) bhi else 0)"
    have m: "matches a b alo ahi blo bhi = l + k + r"
      using False by (subst matches_unfold) (simp add: f l_def r_def)
    have l: "l \<le> i - alo \<and> l \<le> j - blo"
      using "1.IH"(1) [OF f [symmetric] refl False] by (auto simp: l_def)
    have r: "r \<le> ahi - (i + k) \<and> r \<le> bhi - (j + k)"
      using "1.IH"(2) [OF f [symmetric] refl False] by (auto simp: r_def)
    from l r bnd False show ?thesis
      unfolding m by auto
  qed
qed

lemma ratio_bounds: "0 \<le> ratio a b \<and> ratio a b \<le> 1"
proof -
  let ?m = "matches a b 0 (length a) 0 (length b)"
  have "?m \<le> length a" "?m \<le> length b"
    using matches_le [of 0 "length a" 0 "length b" a b] by auto
  then have "2 * ?m \<le> length a + length b" by simp
  then have "2 * real ?m \<le> real (length a + length b)"
    by (metis of_nat_le_iff of_nat_mult of_nat_numeral)
  then show ?thesis
    by (auto simp: ratio_def calculate_ratio_def matches_def [symmetric] divide_le_eq)
qed

subsection \<open>Sequences without a common element\<close>

lemma rows_loop_no_index:
  "\<forall>i \<in> set is. b2j b (a ! i) = [] \<Longrightarrow> rows_loop a b blo bhi is (m, best) = best"
  by (induction "is" arbitrary: m) auto

lemma b2j_not_member: "elt \<notin> set b \<Longrightarrow> b2j b elt = []"
  by (auto simp: b2j_def filter_empty_conv)

lemma find_longest_match_disjoint:
  assumes "set a \<inter> set b = {}"
  shows "find_longest_match a b 0 (length a) 0 (length b) = (0, 0, 0)"
proof -
  have "\<forall>i \<in> set [0..<length a]. b2j b (a ! i) = []"
  proof
    fix i assume "i \<in> set [0..<length a]"
    then have "a ! i \<in> set a" by simp
    with assms have "a ! i \<notin> set b" by blast
    then show "b2j b (a ! i) = []" by (rule b2j_not_member)
  qed
  then have rows: "rows_loop a b 0 (length b) [0..<length a] (Map.empty, (0, 0, 0)) = (0, 0, 0)"
    by (rule rows_loop_no_index)
  have "a ! 0 \<noteq> b ! 0" if "0 < length a" "0 < length b"
    using that assms by (metis disjoint_iff nth_mem)
  then have fwd: "extend_fwd a b (length a) (length b) (0, 0, 0) = (0, 0, 0)"
    by (subst extend_fwd.simps) auto
  show ?thesis
    by (simp add: find_longest_match_def rows extend_back.simps [of a b 0 0 0 0 0] fwd)
qed

lemma ratio_disjoint:
  assumes "set a \<inter> set b = {}" "a \<noteq> [] \<or> b \<noteq> []"
  shows "ratio a b = 0"
  using assms
  by (auto simp: ratio_def calculate_ratio_def
      matching_blocks.simps [of a b 0 "length a" 0 "length b"] find_longest_match_disjoint)


subsection \<open>A sequence compared with itself\<close>

lemma row_loop_diag:
  assumes m: "j2len_diag s i m" and np: "\<not> popular s (s ! i)"
  shows "sorted js \<Longrightarrow> \<forall>j \<in> set js. j < n \<and> s ! j = s ! i \<Longrightarrow>
         \<forall>i' \<le> i. run s i' \<le> bs \<Longrightarrow> i \<in> set js \<or> run s (Suc i) \<le> bs \<Longrightarrow>
         row_loop m i 0 n js (new, (d, d, bs)) = (new', (bi, bj, bs')) \<Longrightarrow>
         bi = bj \<and> (\<forall>i' \<le> Suc i. run s i' \<le> bs') \<and>
         (\<forall>x. new' x = (if x \<in> set js then Some (j2len_get m x + 1) else new x))"
proof (induction js arbitrary: new d bs)
  case Nil
  then show ?case by (auto simp: le_Suc_eq)
next
  case (Cons j js)
  define k where "k = j2len_get m j + 1"
  have jn: "j < n" and sj: "s ! j = s ! i"
    using Cons.prems(2) by auto
  have kj: "k \<le> run s (Suc j)" and ki: "k \<le> run s (Suc i)"
    using m np sj by (auto simp: j2len_diag_def k_def)
  have sorted: "sorted js" and all: "\<forall>j \<in> set js. j < n \<and> s ! j = s ! i"
    using Cons.prems(1,2) by auto
  have step: "row_loop m i 0 n (j # js) (new, (d, d, bs)) =
      row_loop m i 0 n js
        (new(j \<mapsto> k), if bs < k then (i + 1 - k, j + 1 - k, k) else (d, d, bs))"
    using jn by (simp add: k_def Let_def)
  have upd: "(if x \<in> set js then Some (j2len_get m x + 1) else (new(j \<mapsto> k)) x) =
      (if x \<in> set (j # js) then Some (j2len_get m x + 1) else new x)" for x
    by (simp add: k_def)
  consider (lt) "j < i" | (eq) "j = i" | (gt) "i < j" by linarith
  then show ?case
  proof cases
    case lt
    then have "Suc j \<le> i" by simp
    with Cons.prems(3) have "run s (Suc j) \<le> bs" by blast
    with kj have nb: "\<not> bs < k" by simp
    have b: "i \<in> set js \<or> run s (Suc i) \<le> bs"
      using Cons.prems(4) lt by auto
    have r: "row_loop m i 0 n js (new(j \<mapsto> k), (d, d, bs)) = (new', (bi, bj, bs'))"
      using Cons.prems(5) nb unfolding step by simp
    from Cons.IH [OF sorted all Cons.prems(3) b r] show ?thesis
      unfolding upd .
  next
    case eq
    have rk: "k = run s (Suc i)"
      using m np eq by (simp add: j2len_diag_def k_def)
    show ?thesis
    proof (cases "bs < k")
      case True
      have a: "\<forall>i' \<le> i. run s i' \<le> k"
        using Cons.prems(3) True by (meson le_trans less_imp_le)
      have b: "i \<in> set js \<or> run s (Suc i) \<le> k"
        using rk by simp
      have r: "row_loop m i 0 n js (new(j \<mapsto> k), (i + 1 - k, i + 1 - k, k)) =
          (new', (bi, bj, bs'))"
        using Cons.prems(5) True eq unfolding step by simp
      from Cons.IH [OF sorted all a b r] show ?thesis
        unfolding upd .
    next
      case False
      then have b: "i \<in> set js \<or> run s (Suc i) \<le> bs"
        using rk by simp
      have r: "row_loop m i 0 n js (new(j \<mapsto> k), (d, d, bs)) = (new', (bi, bj, bs'))"
        using Cons.prems(5) False unfolding step by simp
      from Cons.IH [OF sorted all Cons.prems(3) b r] show ?thesis
        unfolding upd .
    qed
  next
    case gt
    then have "i \<notin> set (j # js)"
      using Cons.prems(1) by auto
    then have ri: "run s (Suc i) \<le> bs"
      using Cons.prems(4) by blast
    with ki have nb: "\<not> bs < k" by simp
    have r: "row_loop m i 0 n js (new(j \<mapsto> k), (d, d, bs)) = (new', (bi, bj, bs'))"
      using Cons.prems(5) nb unfolding step by simp
    from ri have b: "i \<in> set js \<or> run s (Suc i) \<le> bs" by simp
    from Cons.IH [OF sorted all Cons.prems(3) b r] show ?thesis
      unfolding upd .
  qed
qed

lemma rows_loop_diag:
  "i0 \<le> length s \<Longrightarrow> j2len_diag s i0 m \<Longrightarrow> \<forall>i' \<le> i0. run s i' \<le> bs \<Longrightarrow>
   \<exists>d' bs'. rows_loop s s 0 (length s) [i0..<length s] (m, (d, d, bs)) = (d', d', bs')"
proof (induction "length s - i0" arbitrary: i0 m d bs)
  case 0
  then show ?case by simp
next
  case (Suc x)
  then have lt: "i0 < length s" by simp
  let ?js = "b2j s (s ! i0)"
  let ?r = "row_loop m i0 0 (length s) ?js (Map.empty, (d, d, bs))"
  have unf: "rows_loop s s 0 (length s) [i0..<length s] (m, (d, d, bs)) =
      rows_loop s s 0 (length s) [Suc i0..<length s] ?r"
    using lt by (simp add: upt_conv_Cons)
  have "\<exists>new' d' bs'. ?r = (new', (d', d', bs')) \<and> j2len_diag s (Suc i0) new' \<and>
      (\<forall>i' \<le> Suc i0. run s i' \<le> bs')"
  proof (cases "popular s (s ! i0)")
    case True
    then have "?r = (Map.empty, (d, d, bs))"
      by (simp add: b2j_def)
    moreover have "j2len_diag s (Suc i0) Map.empty"
      using True by (simp add: j2len_diag_def j2len_get_def)
    moreover have "\<forall>i' \<le> Suc i0. run s i' \<le> bs"
      using Suc.prems(3) True by (auto simp: le_Suc_eq)
    ultimately show ?thesis by blast
  next
    case False
    then have js: "?js = filter (\<lambda>j. s ! j = s ! i0) [0..<length s]"
      by (simp add: b2j_def)
    have srt: "sorted ?js"
      unfolding js by (rule sorted_wrt_filter) simp
    have all: "\<forall>j \<in> set ?js. j < length s \<and> s ! j = s ! i0"
      and mem: "i0 \<in> set ?js \<or> run s (Suc i0) \<le> bs"
      using lt by (auto simp: js)
    obtain new' bi bj bs' where r: "?r = (new', (bi, bj, bs'))"
      by (metis prod_cases3)
    from row_loop_diag [OF Suc.prems(2) False srt all Suc.prems(3) mem r]
    have d: "bi = bj" and b: "\<forall>i' \<le> Suc i0. run s i' \<le> bs'" and
      n: "\<And>x. new' x = (if x \<in> set ?js then Some (j2len_get m x + 1) else None)"
      by auto
    have np: "\<not> popular s (s ! j)" if "j \<in> set ?js" for j
      using that False by (simp add: js)
    have g: "j2len_get new' (Suc j') = (if j' \<in> set ?js then j2len_get m j' + 1 else 0)"
      for j'
      unfolding j2len_get_def [of new'] by (simp add: n)
    have "j2len_get new' j \<le> run s (Suc i0) \<and> j2len_get new' j \<le> run s j" for j
    proof (cases j)
      case 0
      then show ?thesis by (simp add: j2len_get_def)
    next
      case (Suc j')
      show ?thesis
      proof (cases "j' \<in> set ?js")
        case True
        have "j2len_get m j' \<le> run s i0" "j2len_get m j' \<le> run s j'"
          using Suc.prems(2) by (auto simp: j2len_diag_def)
        with np [OF True] False True show ?thesis
          by (simp add: Suc g)
      next
        case False
        then show ?thesis
          by (simp add: Suc g)
      qed
    qed
    moreover have "j2len_get new' (Suc i0) = run s (Suc i0)"
    proof -
      have "i0 \<in> set ?js" using lt by (simp add: js)
      moreover have "j2len_get m i0 = run s i0"
        using Suc.prems(2) by (simp add: j2len_diag_def)
      ultimately show ?thesis using False by (simp add: g)
    qed
    ultimately have "j2len_diag s (Suc i0) new'"
      by (simp add: j2len_diag_def)
    with r d b show ?thesis by blast
  qed
  then obtain new' d' bs' where r: "?r = (new', (d', d', bs'))" and
    j: "j2len_diag s (Suc i0) new'" and b: "\<forall>i' \<le> Suc i0. run s i' \<le> bs'"
    by blast
  have "x = length s - Suc i0" "Suc i0 \<le> length s"
    using Suc.hyps(2) lt by auto
  from Suc.hyps(1) [OF this j b, of d'] show ?case
    unfolding unf r .
qed

lemma extend_back_diag: "extend_back s s 0 0 (d, d, k) = (0, 0, k + d)"
proof (induction d arbitrary: k)
  case 0
  then show ?case by (subst extend_back.simps) simp
next
  case (Suc d)
  then show ?case by (subst extend_back.simps) simp
qed

lemma extend_fwd_diag: "k \<le> n \<Longrightarrow> extend_fwd s s n n (0, 0, k) = (0, 0, n)"
proof (induction "n - k" arbitrary: k)
  case 0
  then show ?case by (subst extend_fwd.simps) simp
next
  case (Suc x)
  then have "extend_fwd s s n n (0, 0, k) = extend_fwd s s n n (0, 0, k + 1)"
    by (subst extend_fwd.simps) simp
  also have "\<dots> = (0, 0, n)"
    using Suc by (intro Suc.hyps(1)) auto
  finally show ?case .
qed

lemma find_longest_match_same:
  "find_longest_match s s 0 (length s) 0 (length s) = (0, 0, length s)"
proof -
  let ?n = "length s"
  let ?rows = "rows_loop s s 0 ?n [0..<?n] (Map.empty, (0, 0, 0))"
  have "j2len_diag s 0 Map.empty"
    by (simp add: j2len_diag_def j2len_get_def)
  from rows_loop_diag [OF _ this, of 0 0] obtain d bs where rows: "?rows = (d, d, bs)"
    by auto
  have "best_ok 0 ?n 0 ?n ?rows"
    by (intro rows_loop_ok) (simp_all add: j2len_ok_def best_ok_def)
  then have "bs + d \<le> ?n"
    unfolding rows by (auto simp: best_ok_def split: if_splits)
  then show ?thesis
    by (simp add: find_longest_match_def rows extend_back_diag extend_fwd_diag)
qed

lemma ratio_same: "ratio s s = 1"
proof (cases "s = []")
  case True
  then show ?thesis
    by (simp add: ratio_def calculate_ratio_def)
next
  case False
  then have "matching_blocks s s 0 (length s) 0 (length s) = [(0, 0, length s)]"
    by (subst matching_blocks.simps) (simp add: find_longest_match_same)
  with False show ?thesis
    by (simp add: ratio_def calculate_ratio_def)
qed

section \<open>Facts about scoring and ranking\<close>

lemma bind_Inr [simp]: "bind (Inr x) f = f x"
  by (simp add: bind_def)

lemma bind_Inl [simp]: "bind (Inl e) f = Inl e"
  by (simp add: bind_def)

lemma bind_eq_Inr: "bind r f = Inr y \<longleftrightarrow> (\<exists>x. r = Inr x \<and> f x = Inr y)"
  by (cases r) auto

lemma substring_loop_count:
  "substring_loop words t acc =
   acc + 0.3 * real (length (filter (\<lambda>w. sublist w t) words))"
  by (induction words arbitrary: acc) (simp_all add: str_in_sublist algebra_simps)

lemma fuzzy_score_eq:
  "fuzzy_score query text =
   min 1 (0.3 * real (length (filter (\<lambda>w. sublist w (lower text)) (split (lower query)))) +
          ratio (lower query) (lower text))"
  by (simp add: fuzzy_score_def Let_def substring_loop_count)


lemma fuzzy_score_val_text:
  "text_or_missing a key \<Longrightarrow>
   fuzzy_score_val query (dict_get a key (PyStr [])) = Inr (fuzzy_score query (text_of a key))"
  by (auto simp: text_or_missing_def dict_get_def fuzzy_score_val_def text_of_def
      split: option.splits pyval.splits)

lemma total_score_weighted:
  "scorable a \<Longrightarrow> total_score query a = Inr (weighted_score query a)"
  by (simp add: scorable_def total_score_def fuzzy_score_val_text weighted_score_def)

lemma scored_loop_weighted:
  "list_all scorable as \<Longrightarrow>
   scored_loop query as acc = Inr (acc @ map (\<lambda>a. (weighted_score query a, a)) as)"
  by (induction as arbitrary: acc) (simp_all add: total_score_weighted)

lemma rank_articles_weighted:
  "list_all scorable as \<Longrightarrow>
   rank_articles query as = Inr (ranked_by (weighted_score query) as)"
  by (simp add: rank_articles_def scored_loop_weighted ranked_by_def)


lemma set_ranked_by: "set (ranked_by w as) \<subseteq> set as"
  by (auto simp: ranked_by_def)

section \<open>Facts about the composer\<close>

lemma search_kb_articles_Rows:
  "\<exists>found. search_kb_articles (Rows rows) query = Inr found \<and> set found \<subseteq> set rows"
  by (auto simp: search_kb_articles_def get_all_kb_articles_def Let_def)

lemma merge_loop_dedup:
  "\<forall>a \<in> set xs. article_id a \<noteq> None \<Longrightarrow>
   merge_loop xs seen merged =
     Inr (merged @ dedup_by_id (filter (\<lambda>x. article_id x \<notin> Some ` seen) xs))"
proof (induction xs arbitrary: seen merged)
  case Nil
  then show ?case by simp
next
  case (Cons a xs)
  then obtain i where i: "map_of a ''id'' = Some i"
    by (auto simp: article_id_def)
  have item: "dict_item a ''id'' = Inr i"
    by (simp add: dict_item_def i)
  have ids: "\<forall>a \<in> set xs. article_id a \<noteq> None"
    using Cons.prems by simp
  show ?case
  proof (cases "i \<in> seen")
    case True
    then have "article_id a \<in> Some ` seen"
      by (simp add: article_id_def i)
    then have flt: "filter (\<lambda>x. article_id x \<notin> Some ` seen) (a # xs) =
        filter (\<lambda>x. article_id x \<notin> Some ` seen) xs"
      by simp
    have "merge_loop (a # xs) seen merged = merge_loop xs seen merged"
      using True by (simp add: item)
    then show ?thesis
      unfolding flt using Cons.IH [OF ids] by simp
  next
    case False
    then have "article_id a \<notin> Some ` seen"
      by (auto simp: article_id_def i)
    then have flt: "filter (\<lambda>x. article_id x \<notin> Some ` seen) (a # xs) =
        a # filter (\<lambda>x. article_id x \<notin> Some ` seen) xs"
      by simp
    have f: "filter (\<lambda>x. article_id x \<notin> Some ` insert i seen) xs =
        filter (\<lambda>x. article_id x \<noteq> article_id a)
          (filter (\<lambda>x. article_id x \<notin> Some ` seen) xs)"
      by (auto simp: article_id_def i intro!: filter_cong)
    have "merge_loop (a # xs) seen merged = merge_loop xs (insert i seen) (merged @ [a])"
      using False by (simp add: item)
    also have "\<dots> = Inr ((merged @ [a]) @
        dedup_by_id (filter (\<lambda>x. article_id x \<notin> Some ` insert i seen) xs))"
      by (rule Cons.IH [OF ids])
    also have "\<dots> = Inr (merged @
        dedup_by_id (a # filter (\<lambda>x. article_id x \<notin> Some ` seen) xs))"
      by (simp only: f dedup_by_id.simps append_assoc append_Cons append_Nil)
    finally show ?thesis
      unfolding flt .
  qed
qed

lemma merge_loop_result:
  "merge_loop xs seen merged = Inr ys \<Longrightarrow>
   ys = merged @ dedup_by_id (filter (\<lambda>x. article_id x \<notin> Some ` seen) xs)"
proof -
  assume r: "merge_loop xs seen merged = Inr ys"
  have "\<forall>a \<in> set xs. article_id a \<noteq> None"
    using r
  proof (induction xs arbitrary: seen merged)
    case Nil
    then show ?case by simp
  next
    case (Cons a xs)
    from Cons.prems obtain i where i: "dict_item a ''id'' = Inr i"
      and rest: "(if i \<notin> seen then merge_loop xs (insert i seen) (merged @ [a])
                  else merge_loop xs seen merged) = Inr ys"
      by (auto simp: bind_eq_Inr)
    from i have "article_id a \<noteq> None"
      by (auto simp: dict_item_def article_id_def split: option.splits)
    moreover from rest have "\<forall>a \<in> set xs. article_id a \<noteq> None"
      using Cons.IH by (cases "i \<in> seen") auto
    ultimately show ?case by simp
  qed
  from merge_loop_dedup [OF this, of seen merged] r show ?thesis by simp
qed

lemma general_response_result:
  assumes "general_response db query = Inr r"
  shows "\<exists>found rows ranked.
           db = Rows rows \<and> search_kb_articles db query = Inr found \<and>
           rank_articles query rows = Inr ranked \<and>
           articles r = take 5 (dedup_by_id (found @ ranked)) \<and>
           message r = (if articles r \<noteq> []
              then found_message (length (articles r)) (source_label_of (articles r)) query
              else not_found_message query) \<and>
           suggestions r = generate_suggestions query (classify_intent query) (articles r)"
proof -
  from assms obtain found all_articles ranked merged where
    f: "search_kb_articles db query = Inr found" and
    a: "get_all_kb_articles db = Inr all_articles" and
    k: "rank_articles query all_articles = Inr ranked" and
    m: "merge_loop (found @ ranked) {} [] = Inr merged" and
    r: "r = \<lparr>message = (if take 5 merged \<noteq> []
              then found_message (length (take 5 merged)) (source_label_of (take 5 merged)) query
              else not_found_message query),
            articles = take 5 merged,
            suggestions = generate_suggestions query (classify_intent query) (take 5 merged)\<rparr>"
    unfolding general_response_def bind_eq_Inr Let_def by auto
  from a have db: "db = Rows all_articles"
    by (cases db) (auto simp: get_all_kb_articles_def)
  from merge_loop_result [OF m] have "merged = dedup_by_id (found @ ranked)"
    by simp
  with f k db r show ?thesis by auto
qed

lemma general_response_total:
  assumes "store_ok db"
  shows "\<exists>r. general_response db query = Inr r"
proof -
  from assms obtain rows where db: "db = Rows rows" and ok: "list_all article_ok rows"
    by (cases db) (auto simp: store_ok_def)
  from ok have sc: "list_all scorable rows"
    by (auto simp: list_all_iff article_ok_def)
  from search_kb_articles_Rows obtain found where
    f: "search_kb_articles (Rows rows) query = Inr found" and sub: "set found \<subseteq> set rows"
    by blast
  have "\<forall>a \<in> set (found @ ranked_by (weighted_score query) rows). article_id a \<noteq> None"
    using sub set_ranked_by [of "weighted_score query" rows] ok
    by (auto simp: list_all_iff article_ok_def article_id_def)
  from merge_loop_dedup [OF this, of "{}" "[]"] show ?thesis
    by (simp add: general_response_def db f get_all_kb_articles_def
        rank_articles_weighted [OF sc] Let_def)
qed

lemma chatbot_response_general:
  "general_query user_input \<Longrightarrow>
   chatbot_response db user_input = general_response db (strip user_input)"
  by (simp add: general_query_def chatbot_response_def Let_def)

lemma chatbot_response_cases:
  "chatbot_response db user_input = Inr empty_response \<and> strip user_input = [] \<or>
   chatbot_response db user_input = Inr greeting_response \<and> strip user_input \<noteq> [] \<or>
   chatbot_response db user_input = Inr help_response \<and> strip user_input \<noteq> [] \<or>
   chatbot_response db user_input = general_response db (strip user_input) \<and>
     general_query user_input"
  by (simp add: general_query_def chatbot_response_def Let_def)

lemma chatbot_response_total:
  "store_ok db \<Longrightarrow> \<exists>r. chatbot_response db user_input = Inr r"
  using chatbot_response_cases [of db user_input] general_response_total [of db]
  by metis





subsection \<open>Deduplication\<close>

lemma set_dedup_by_id: "set (dedup_by_id xs) \<subseteq> set xs"
  by (induction xs rule: dedup_by_id.induct) auto

lemma dedup_by_id_filter:
  "dedup_by_id (filter (\<lambda>x. Q (article_id x)) xs) =
   filter (\<lambda>x. Q (article_id x)) (dedup_by_id xs)"
proof (induction xs rule: dedup_by_id.induct)
  case 1
  then show ?case by simp
next
  case (2 a rest)
  let ?ne = "\<lambda>x. article_id x \<noteq> article_id a"
  let ?q = "\<lambda>x. Q (article_id x)"
  have comm: "filter ?ne (filter ?q rest) = filter ?q (filter ?ne rest)"
    by (auto intro: filter_cong)
  show ?case
  proof (cases "Q (article_id a)")
    case True
    then have "dedup_by_id (filter ?q (a # rest)) =
        a # dedup_by_id (filter ?ne (filter ?q rest))"
      by simp
    also have "\<dots> = a # filter ?q (dedup_by_id (filter ?ne rest))"
      by (simp only: comm 2)
    also have "\<dots> = filter ?q (dedup_by_id (a # rest))"
      using True by simp
    finally show ?thesis .
  next
    case False
    then have same: "filter ?q (filter ?ne rest) = filter ?q rest"
      by (auto intro: filter_cong)
    from False have "dedup_by_id (filter ?q (a # rest)) = dedup_by_id (filter ?q rest)"
      by simp
    also have "\<dots> = filter ?q (dedup_by_id (filter ?ne rest))"
      by (simp only: same [symmetric] 2)
    also have "\<dots> = filter ?q (dedup_by_id (a # rest))"
      using False by simp
    finally show ?thesis .
  qed
qed

lemma dedup_by_id_append:
  "dedup_by_id (xs @ ys) =
   dedup_by_id xs @ filter (\<lambda>y. article_id y \<notin> article_id ` set xs) (dedup_by_id ys)"
proof (induction xs arbitrary: ys rule: dedup_by_id.induct)
  case 1
  then show ?case by simp
next
  case (2 a rest)
  let ?ne = "\<lambda>x. article_id x \<noteq> article_id a"
  have ys: "dedup_by_id (filter ?ne ys) = filter ?ne (dedup_by_id ys)"
    using dedup_by_id_filter [of "\<lambda>i. i \<noteq> article_id a" ys] by simp
  have "dedup_by_id ((a # rest) @ ys) =
      a # dedup_by_id (filter ?ne rest @ filter ?ne ys)"
    by simp
  also have "\<dots> = a # (dedup_by_id (filter ?ne rest) @
      filter (\<lambda>y. article_id y \<notin> article_id ` set (filter ?ne rest))
        (filter ?ne (dedup_by_id ys)))"
    by (simp only: "2.IH" ys)
  also have "filter (\<lambda>y. article_id y \<notin> article_id ` set (filter ?ne rest))
        (filter ?ne (dedup_by_id ys)) =
      filter (\<lambda>y. article_id y \<notin> article_id ` set (a # rest)) (dedup_by_id ys)"
    by (auto intro!: filter_cong simp: image_iff)
  finally show ?case by simp
qed

lemma distinct_dedup_by_id: "distinct (map article_id (dedup_by_id xs))"
proof (induction xs rule: dedup_by_id.induct)
  case 1
  then show ?case by simp
next
  case (2 a rest)
  have "article_id a \<notin> article_id ` set (dedup_by_id (filter (\<lambda>x. article_id x \<noteq> article_id a) rest))"
    using set_dedup_by_id [of "filter (\<lambda>x. article_id x \<noteq> article_id a) rest"] by auto
  with 2 show ?case by simp
qed

lemma dedup_by_id_distinct: "distinct (map article_id xs) \<Longrightarrow> dedup_by_id xs = xs"
proof (induction xs)
  case Nil
  then show ?case by simp
next
  case (Cons a xs)
  then have "filter (\<lambda>x. article_id x \<noteq> article_id a) xs = xs"
    by (auto simp: filter_id_conv image_iff)
  with Cons show ?case by simp
qed

lemma ids_dedup_by_id: "article_id ` set (dedup_by_id xs) = article_id ` set xs"
proof (induction xs rule: dedup_by_id.induct)
  case 1
  then show ?case by simp
next
  case (2 a rest)
  then show ?case by (auto simp: image_iff)
qed

section \<open>Intent classification: results\<close>

text \<open>
  C7. A tag is in the result of \<open>classify_intent\<close> exactly when one of its keywords,
  lowercased, is a substring of the lowercased query; the result lists the matching tags in
  the declaration order of \<open>INTENT_MAP\<close>, each once; it is empty exactly when no
  keyword matches; and a query can match several tags (\<open>alert\<close> is a keyword of two).
\<close>

theorem classify_intent_spec:
  "(tag \<in> set (classify_intent query) \<longleftrightarrow>
      (\<exists>kws kw. (tag, kws) \<in> set INTENT_MAP \<and> kw \<in> set kws \<and>
         sublist (lower kw) (lower query)))
   \<and> classify_intent query =
       filter (\<lambda>t. t \<in> set (classify_intent query)) (map fst INTENT_MAP)
   \<and> distinct (classify_intent query)
   \<and> (classify_intent query = [] \<longleftrightarrow>
        \<not> (\<exists>t kws kw. (t, kws) \<in> set INTENT_MAP \<and> kw \<in> set kws \<and>
         sublist (lower kw) (lower query)))
   \<and> classify_intent ''alert'' = [''incident'', ''monitoring'']"
proof -
  have names: "distinct (map fst INTENT_MAP)"
    by (simp add: INTENT_MAP_def)
  have eq: "classify_intent q =
      map fst (filter (\<lambda>p. kw_loop (lower q) (snd p)) INTENT_MAP)" for q
    by (simp add: classify_intent_def intent_loop_filter)
  have mem: "t \<in> set (classify_intent query) \<longleftrightarrow>
      (\<exists>kws kw. (t, kws) \<in> set INTENT_MAP \<and> kw \<in> set kws \<and>
         sublist (lower kw) (lower query))" for t
    unfolding eq by (force simp: kw_loop_iff)
  have dist: "distinct (classify_intent query)"
    unfolding eq using names by (simp add: distinct_map_filter)
  have ord: "classify_intent query =
       filter (\<lambda>t. t \<in> set (classify_intent query)) (map fst INTENT_MAP)"
    unfolding eq using filter_mem_map_filter [OF names] by simp
  have emp: "classify_intent query = [] \<longleftrightarrow>
        \<not> (\<exists>t kws kw. (t, kws) \<in> set INTENT_MAP \<and> kw \<in> set kws \<and>
         sublist (lower kw) (lower query))"
    using mem by (metis list.set_intros(1) empty_iff empty_set neq_Nil_conv)
  have ex: "classify_intent ''alert'' = [''incident'', ''monitoring'']"
    by code_simp
  from mem ord dist emp ex show ?thesis by blast
qed

theorem classify_intent_spec_witness:
  "(\<exists>kws kw. (''incident'', kws) \<in> set INTENT_MAP \<and> kw \<in> set kws \<and>
         sublist (lower kw) (lower ''alert'')) \<and>
   \<not> (\<exists>t kws kw. (t, kws) \<in> set INTENT_MAP \<and> kw \<in> set kws \<and>
         sublist (lower kw) (lower ''zzz''))"
proof -
  have "classify_intent ''zzz'' = []"
    by code_simp
  then show ?thesis
    using classify_intent_spec [of "''incident''" "''alert''"]
      classify_intent_spec [of "''incident''" "''zzz''"]
    by simp
qed

section \<open>Relevance scoring: results\<close>

text \<open>
  C3. \<open>fuzzy_score\<close> is the minimum of 1 and the sum of 0.3 for every token of the
  lowercased query that is a substring of the lowercased text, and of the similarity
  ratio of the two lowercased strings. The tokens are the whitespace-delimited words:
  \<open>split\<close> yields nothing for the empty string, splits at every whitespace character,
  and leaves a non-empty string without whitespace whole. The ratio lies in \<open>[0, 1]\<close>, is
  1 for identical strings and 0 for strings without a common character (unless both are
  empty, which are identical). The score is a function of the two strings alone.
\<close>

theorem fuzzy_score_spec:
  "fuzzy_score query text =
     min 1 (0.3 * real (length (filter (\<lambda>w. sublist w (lower text)) (split (lower query)))) +
            ratio (lower query) (lower text)) \<and>
   0 \<le> ratio a b \<and> ratio a b \<le> 1 \<and>
   ratio a a = 1 \<and>
   (set a \<inter> set b = {} \<and> (a \<noteq> [] \<or> b \<noteq> []) \<longrightarrow> ratio a b = 0) \<and>
   split [] = [] \<and>
   (is_space c \<longrightarrow> split (u @ c # v) = split u @ split v) \<and>
   (w \<noteq> [] \<and> (\<forall>x \<in> set w. \<not> is_space x) \<longrightarrow> split w = [w])"
  using fuzzy_score_eq [of query "text"] ratio_bounds [of a b] ratio_same [of a]
    ratio_disjoint [of a b] split_Nil split_space [of c u v] split_word [of w]
  by blast

theorem fuzzy_score_spec_witness:
  "set ''abc'' \<inter> set ''xyz'' = {} \<and> ratio ''abc'' ''xyz'' = 0 \<and>
   is_space CHR '' '' \<and> split (''on'' @ CHR '' '' # ''call'') = split ''on'' @ split ''call'' \<and>
   list_all (\<lambda>x. \<not> is_space x) ''call'' \<and> split ''call'' = [''call'']"
proof -
  have d: "set ''abc'' \<inter> set ''xyz'' = {}" by simp
  have s: "is_space CHR '' ''" by code_simp
  have n: "\<forall>x \<in> set ''call''. \<not> is_space x" by code_simp
  from d s n show ?thesis
    using fuzzy_score_spec [of "''q''" "''t''" "''abc''" "''xyz''" "CHR '' ''" "''on''" "''call''"
        "''call''"]
    by (simp add: list_all_iff)
qed




section \<open>The response composer: results\<close>






text \<open>
  C6. For the empty query \<open>chatbot_response\<close> returns the fixed message with no articles,
  whatever the store: also for a store on which every read raises, where the branch that
  searches and ranks (\<open>general_response\<close>) raises too. So the empty query reaches neither
  the keyword search nor the ranker.
\<close>

theorem empty_query_response:
  "chatbot_response db [] = Inr empty_response \<and>
   message empty_response =
     ''Please type a question or topic '' @ [CHR 0xE2, CHR 0x80, CHR 0x94] @
     '' I'll find the most relevant SRE resources for you.'' \<and>
   articles empty_response = [] \<and>
   chatbot_response Unavailable [] = Inr empty_response \<and>
   search_kb_articles Unavailable query = Inl OperationalError \<and>
   get_all_kb_articles Unavailable = Inl OperationalError \<and>
   general_response Unavailable query = Inl OperationalError"
  by (simp add: chatbot_response_def strip_def empty_response_def empty_message_def
      search_kb_articles_def get_all_kb_articles_def general_response_def)




text \<open>
  C4. On the general-query branch the returned articles are the keyword-search results
  followed by the ranked results, deduplicated by \<open>id\<close> with the first occurrence kept,
  cut to the first 5. The deduplicated keyword-search results come first and a ranked
  article follows only if its \<open>id\<close> is not among them, so an \<open>id\<close> found by both searches
  appears once, at its keyword-search position; when the keyword-search results have
  distinct ids they are themselves that leading part.
\<close>

theorem merged_articles:
  assumes "general_query user_input" "store_ok db"
  shows "\<exists>rows found ranked r.
           db = Rows rows \<and>
           search_kb_articles db (strip user_input) = Inr found \<and>
           rank_articles (strip user_input) rows = Inr ranked \<and>
           chatbot_response db user_input = Inr r \<and>
           articles r = take 5 (dedup_by_id (found @ ranked)) \<and>
           dedup_by_id (found @ ranked) =
             dedup_by_id found @
             filter (\<lambda>a. article_id a \<notin> article_id ` set found) (dedup_by_id ranked) \<and>
           (distinct (map article_id found) \<longrightarrow> dedup_by_id found = found) \<and>
           distinct (map article_id (articles r))"
proof -
  from chatbot_response_total [OF assms(2)] obtain r where
    r: "chatbot_response db user_input = Inr r" by blast
  with assms(1) have "general_response db (strip user_input) = Inr r"
    by (simp add: chatbot_response_general)
  from general_response_result [OF this] obtain found rows ranked where
    *: "db = Rows rows" "search_kb_articles db (strip user_input) = Inr found"
       "rank_articles (strip user_input) rows = Inr ranked"
       "articles r = take 5 (dedup_by_id (found @ ranked))"
    by blast
  have "distinct (map article_id (articles r))"
    unfolding *(4) take_map [symmetric] by (rule distinct_take) (rule distinct_dedup_by_id)
  with * r show ?thesis
    using dedup_by_id_append [of found ranked] dedup_by_id_distinct [of found] by blast
qed

theorem merged_articles_witness:
  "general_query ''sre book'' \<and> store_ok (Rows kb_example) \<and>
   (\<exists>found ranked r.
      search_kb_articles (Rows kb_example) (strip ''sre book'') = Inr found \<and>
      rank_articles (strip ''sre book'') kb_example = Inr ranked \<and>
      chatbot_response (Rows kb_example) ''sre book'' = Inr r \<and>
      articles r = take 5 (dedup_by_id (found @ ranked)))"
proof -
  have ok: "store_ok (Rows kb_example)" by code_simp
  have g: "general_query ''sre book''" by code_simp
  from merged_articles [OF g ok] g ok show ?thesis by blast
qed

text \<open>
  C8. On the general-query branch with at least one article returned, the message states
  the number of returned articles and names their sources from the \<open>source_type\<close> values
  among them: both kinds when \<open>confluence\<close> (internal) and \<open>external\<close> are both present,
  Confluence pages alone when only \<open>confluence\<close> is, external resources alone when only
  \<open>external\<close> is.
\<close>

theorem source_mix_message:
  assumes "general_query user_input" "chatbot_response db user_input = Inr r"
    "articles r \<noteq> []"
  shows "(\<exists>label.
            message r =
              [CHR 0xF0, CHR 0x9F, CHR 0x93, CHR 0x9A] @ '' Found **'' @
              str_nat (length (articles r)) @ ''** relevant '' @ label @ '' for *'' @
              [CHR 0x22] @ strip user_input @ [CHR 0x22] @ ''*:'' \<and>
            (has_source_type ''confluence'' (articles r) \<and>
             has_source_type ''external'' (articles r) \<longrightarrow>
               label = ''Confluence pages and external resources'') \<and>
            (has_source_type ''confluence'' (articles r) \<and>
             \<not> has_source_type ''external'' (articles r) \<longrightarrow>
               label = ''Confluence pages'') \<and>
            (\<not> has_source_type ''confluence'' (articles r) \<and>
             has_source_type ''external'' (articles r) \<longrightarrow>
               label = ''external resources'')) \<and>
         str_nat (length (articles r)) = [char_of (48 + length (articles r))]"
proof -
  from assms have "general_response db (strip user_input) = Inr r"
    by (simp add: chatbot_response_general)
  from general_response_result [OF this] assms(3) have
    m: "message r = found_message (length (articles r)) (source_label_of (articles r))
          (strip user_input)" and
    l: "length (articles r) \<le> 5"
    by auto
  have mem: "has_source_type t as \<longleftrightarrow>
      PyStr t \<in> set (map (\<lambda>a. dict_get a ''source_type'' (PyStr [])) as)" for t as
    unfolding has_source_type_def list_ex_iff by force
  have lab: "(has_source_type ''confluence'' as \<and> has_source_type ''external'' as \<longrightarrow>
        source_label_of as = ''Confluence pages and external resources'') \<and>
      (has_source_type ''confluence'' as \<and> \<not> has_source_type ''external'' as \<longrightarrow>
        source_label_of as = ''Confluence pages'') \<and>
      (\<not> has_source_type ''confluence'' as \<and> has_source_type ''external'' as \<longrightarrow>
        source_label_of as = ''external resources'')" for as
    unfolding mem source_label_of_def Let_def by simp
  from l have "str_nat (length (articles r)) = [char_of (48 + length (articles r))]"
    by (subst str_nat.simps) simp
  with m lab [of "articles r"] show ?thesis
    unfolding found_message_def by blast
qed

theorem source_mix_message_witness:
  "general_query ''g'' \<and>
   (\<exists>r. chatbot_response (Rows kb_example) ''g'' = Inr r \<and> articles r \<noteq> [] \<and>
      has_source_type ''confluence'' (articles r) \<and>
      has_source_type ''external'' (articles r) \<and>
      message r =
        [CHR 0xF0, CHR 0x9F, CHR 0x93, CHR 0x9A] @ '' Found **'' @
        str_nat (length (articles r)) @ ''** relevant '' @
        ''Confluence pages and external resources'' @ '' for *'' @
        [CHR 0x22] @ strip ''g'' @ [CHR 0x22] @ ''*:'')"
proof -
  have ok: "store_ok (Rows kb_example)" by code_simp
  have g: "general_query ''g''" by code_simp
  have a: "map_sum id articles (chatbot_response (Rows kb_example) ''g'') = Inr kb_example"
    by code_simp
  have h: "has_source_type ''confluence'' kb_example" "has_source_type ''external'' kb_example"
    by code_simp+
  from chatbot_response_total [OF ok] obtain r where
    r: "chatbot_response (Rows kb_example) ''g'' = Inr r" by blast
  with a have ar: "articles r = kb_example" by simp
  then have ne: "articles r \<noteq> []" by (simp add: kb_example_def)
  from source_mix_message [OF g r ne] h ar g r ne show ?thesis
    by auto
qed

text \<open>
  C10. The threshold of 0.5 gates the ranked source only. On the general-query branch
  the first 5 keyword-search results (deduplicated) open the returned list whatever they
  score. In the example store the query \<open>g\<close> finds the second article by keyword (its
  category contains the letter); its total score is 0.48, so the ranker leaves it out,
  and the response returns it nevertheless.
\<close>

theorem keyword_match_bypasses_threshold:
  "(general_query user_input \<and> store_ok db \<longrightarrow>
      (\<exists>found r. search_kb_articles db (strip user_input) = Inr found \<and>
         chatbot_response db user_input = Inr r \<and>
         prefix (take 5 (dedup_by_id found)) (articles r))) \<and>
   total_score ''g'' (kb_example ! 1) = Inr 0.48 \<and>
   rank_articles ''g'' kb_example = Inr [kb_example ! 0] \<and>
   search_kb_articles (Rows kb_example) ''g'' = Inr kb_example \<and>
   map_sum id articles (chatbot_response (Rows kb_example) ''g'') = Inr kb_example"
proof -
  have "\<exists>found r. search_kb_articles db (strip user_input) = Inr found \<and>
         chatbot_response db user_input = Inr r \<and>
         prefix (take 5 (dedup_by_id found)) (articles r)"
    if g: "general_query user_input" and ok: "store_ok db"
  proof -
    from chatbot_response_total [OF ok] obtain r where
      r: "chatbot_response db user_input = Inr r" by blast
    with g have "general_response db (strip user_input) = Inr r"
      by (simp add: chatbot_response_general)
    from general_response_result [OF this] obtain found ranked where
      f: "search_kb_articles db (strip user_input) = Inr found" and
      a: "articles r = take 5 (dedup_by_id (found @ ranked))"
      by blast
    have "prefix (take 5 (dedup_by_id found)) (articles r)"
      unfolding a dedup_by_id_append take_append by simp
    with f r show ?thesis by blast
  qed
  moreover have "total_score ''g'' (kb_example ! 1) = Inr 0.48"
    by code_simp
  moreover have "rank_articles ''g'' kb_example = Inr [kb_example ! 0]"
    by code_simp
  moreover have "search_kb_articles (Rows kb_example) ''g'' = Inr kb_example"
    by code_simp
  moreover have
    "map_sum id articles (chatbot_response (Rows kb_example) ''g'') = Inr kb_example"
    by code_simp
  ultimately show ?thesis by blast
qed

theorem keyword_match_bypasses_threshold_witness:
  "general_query ''g'' \<and> store_ok (Rows kb_example) \<and>
   (\<exists>found r. search_kb_articles (Rows kb_example) (strip ''g'') = Inr found \<and>
      chatbot_response (Rows kb_example) ''g'' = Inr r \<and>
      prefix (take 5 (dedup_by_id found)) (articles r))"
proof -
  have ok: "store_ok (Rows kb_example)" by code_simp
  have g: "general_query ''g''" by code_simp
  from keyword_match_bypasses_threshold [of "''g''" "Rows kb_example"] g ok
  show ?thesis by blast
qed

end
